theory Spec2Isabelle
  imports Main "HOL-Library.Sublist"
begin

section \<open>JavaScript values and containers\<close>

text \<open>
  The contents of account data and the private keys are JavaScript values. Only their
  identity and their truthiness matter to \<^verbatim>\<open>EncryptionSetup.js\<close>: the tests
  \<^verbatim>\<open>if (modifiedValue)\<close> and \<^verbatim>\<open>if (privateKey)\<close> coerce a value to a
  boolean. Numbers are restricted to the integers (no \<^verbatim>\<open>NaN\<close>); \<open>JBytes\<close> is a
  \<^verbatim>\<open>Uint8Array\<close>, an object like \<open>JArr\<close> and \<open>JObj\<close>.
\<close>

datatype jsval =
    JUndefined
  | JNull
  | JBool bool
  | JNum int
  | JStr string
  | JBytes "nat list"
  | JArr "jsval list"
  | JObj "(string \<times> jsval) list"

fun truthy :: "jsval \<Rightarrow> bool" where
  "truthy JUndefined = False"
| "truthy JNull = False"
| "truthy (JBool b) = b"
| "truthy (JNum n) = (n \<noteq> 0)"
| "truthy (JStr s) = (s \<noteq> [])"
| "truthy (JBytes bs) = True"
| "truthy (JArr vs) = True"
| "truthy (JObj fs) = True"

text \<open>
  A JavaScript \<^verbatim>\<open>Map\<close> keyed by strings: its entries in insertion order.
  \<^verbatim>\<open>Map.prototype.get\<close> answers \<^verbatim>\<open>undefined\<close> for a key that is not there;
  \<^verbatim>\<open>Map.prototype.set\<close> replaces the value of a key in place and appends a new key
  at the end. Iterating a \<^verbatim>\<open>Map\<close> visits the entries in list order.
\<close>

type_synonym jsmap = "(string \<times> jsval) list"

fun map_get :: "jsmap \<Rightarrow> string \<Rightarrow> jsval" where
  "map_get [] k = JUndefined"
| "map_get ((k', v) # m) k = (if k' = k then v else map_get m k)"

fun map_set :: "jsmap \<Rightarrow> string \<Rightarrow> jsval \<Rightarrow> jsmap" where
  "map_set [] k v = [(k, v)]"
| "map_set ((k', v') # m) k v =
     (if k' = k then (k, v) # m else (k', v') # map_set m k v)"

text \<open>\<^verbatim>\<open>Promise.resolve(v)\<close>: a promise that is already fulfilled with \<open>v\<close>.\<close>

datatype 'a promise = Resolved 'a

text \<open>
  Modelled from the spec: the class \<^verbatim>\<open>MatrixEvent\<close> of \<^verbatim>\<open>../models/event\<close>,
  which is imported and not part of the sources. An event is built from a type and a
  content (\<^verbatim>\<open>new MatrixEvent({type, content})\<close>), and an existing account-data entry
  is an object "holding a content blob" that \<^verbatim>\<open>getContent()\<close> hands out.
\<close>

datatype matrix_event = MatrixEvent (getType: string) (getContent: jsval)

section \<open>The runtime: shared Maps, deferred jobs, listeners\<close>

text \<open>
  The \<^verbatim>\<open>Map\<close> of pending account data is an object that two owners refer to: the
  adapter (\<^verbatim>\<open>_values\<close>) and every operation built from it (\<^verbatim>\<open>_accountData\<close>).
  It therefore lives in a store of cells, and the owners hold its address.
  \<open>microtasks\<close> is the queue of jobs that \<^verbatim>\<open>Promise.resolve().then(...)\<close> defers;
  \<open>delivered\<close> logs each invocation of a listener, in the order they happen.
\<close>

type_synonym addr = nat
type_synonym listener = nat

datatype microtask = EmitAccountData string jsval

record runtime =
  cells :: "addr \<Rightarrow> jsmap"
  next_free :: addr
  microtasks :: "microtask list"
  delivered :: "(listener \<times> matrix_event) list"

definition new_Map :: "runtime \<Rightarrow> runtime \<times> addr" where
  "new_Map rt =
     (rt\<lparr>cells := (cells rt)(next_free rt := []), next_free := Suc (next_free rt)\<rparr>,
      next_free rt)"

section \<open>AccountDataClientAdapter\<close>

text \<open>
  \<open>existingValues\<close> is the constructor's \<^verbatim>\<open>Object.<String, MatrixEvent>\<close>, a
  dictionary from type to event: it has an event, which is an object and so truthy, or
  nothing (\<^verbatim>\<open>undefined\<close>) for a type. \<open>values_map\<close> is the address of \<^verbatim>\<open>_values\<close>;
  \<open>listeners\<close> are the listeners of the inherited \<^verbatim>\<open>EventEmitter\<close> for
  \<^verbatim>\<open>"accountData"\<close>, in registration order.
\<close>

record adapter =
  existingValues :: "string \<rightharpoonup> matrix_event"
  values_map :: addr
  listeners :: "listener list"

definition new_AccountDataClientAdapter ::
  "runtime \<Rightarrow> (string \<rightharpoonup> matrix_event) \<Rightarrow> runtime \<times> adapter" where
  "new_AccountDataClientAdapter rt accountData =
     (case new_Map rt of
        (rt', a) \<Rightarrow> (rt', \<lparr>existingValues = accountData, values_map = a, listeners = []\<rparr>))"

definition pending :: "runtime \<Rightarrow> adapter \<Rightarrow> jsmap" where
  "pending rt a = cells rt (values_map a)"

definition getAccountData :: "runtime \<Rightarrow> adapter \<Rightarrow> string \<Rightarrow> jsval" where
  "getAccountData rt a ty =
     (let modifiedValue = map_get (cells rt (values_map a)) ty in
      if truthy modifiedValue then modifiedValue
      else (case existingValues a ty of
              Some existingValue \<Rightarrow> getContent existingValue
            | None \<Rightarrow> JNull))"

definition getAccountDataFromServer :: "runtime \<Rightarrow> adapter \<Rightarrow> string \<Rightarrow> jsval promise" where
  "getAccountDataFromServer rt a ty = Resolved (getAccountData rt a ty)"

text \<open>
  \<^verbatim>\<open>setAccountData\<close> writes the \<^verbatim>\<open>Map\<close> at once and defers one job, the closure
  that builds the event and emits it. The promise it returns settles after that job.
\<close>

definition setAccountData :: "runtime \<Rightarrow> adapter \<Rightarrow> string \<Rightarrow> jsval \<Rightarrow> runtime" where
  "setAccountData rt a ty content =
     rt\<lparr>cells := (cells rt)(values_map a := map_set (cells rt (values_map a)) ty content),
        microtasks := microtasks rt @ [EmitAccountData ty content]\<rparr>"

text \<open>
  The \<^verbatim>\<open>EventEmitter\<close> of Node: \<^verbatim>\<open>on\<close> appends a listener, \<^verbatim>\<open>emit\<close> calls the
  listeners registered at that moment, synchronously and in registration order.
\<close>

definition addListener :: "adapter \<Rightarrow> listener \<Rightarrow> adapter" where
  "addListener a l = a\<lparr>listeners := listeners a @ [l]\<rparr>"

definition emit :: "runtime \<Rightarrow> adapter \<Rightarrow> matrix_event \<Rightarrow> runtime" where
  "emit rt a ev = rt\<lparr>delivered := delivered rt @ map (\<lambda>l. (l, ev)) (listeners a)\<rparr>"

fun run_microtask :: "adapter \<Rightarrow> runtime \<Rightarrow> microtask \<Rightarrow> runtime" where
  "run_microtask a rt (EmitAccountData ty content) = emit rt a (MatrixEvent ty content)"

text \<open>
  When the running synchronous code has finished, the queue of deferred jobs is drained
  first in, first out, before the next independent task starts.
\<close>

definition run_microtasks :: "runtime \<Rightarrow> adapter \<Rightarrow> runtime" where
  "run_microtasks rt a = foldl (run_microtask a) (rt\<lparr>microtasks := []\<rparr>) (microtasks rt)"

text \<open>
  One task: synchronous code that writes account data and registers listeners in any
  order, then the drain of the deferred jobs.
\<close>

datatype action = Write string jsval | Subscribe listener

fun sync_step :: "runtime \<times> adapter \<Rightarrow> action \<Rightarrow> runtime \<times> adapter" where
  "sync_step (rt, a) (Write ty content) = (setAccountData rt a ty content, a)"
| "sync_step (rt, a) (Subscribe l) = (rt, addListener a l)"

definition run_task :: "runtime \<Rightarrow> adapter \<Rightarrow> action list \<Rightarrow> runtime \<times> adapter" where
  "run_task rt a acts =
     (case foldl sync_step (rt, a) acts of (rt', a') \<Rightarrow> (run_microtasks rt' a', a'))"

fun writes_of :: "action list \<Rightarrow> microtask list" where
  "writes_of [] = []"
| "writes_of (Write ty content # acts) = EmitAccountData ty content # writes_of acts"
| "writes_of (Subscribe l # acts) = writes_of acts"

fun subscriptions_of :: "action list \<Rightarrow> listener list" where
  "subscriptions_of [] = []"
| "subscriptions_of (Write ty content # acts) = subscriptions_of acts"
| "subscriptions_of (Subscribe l # acts) = l # subscriptions_of acts"

fun notifications :: "listener list \<Rightarrow> microtask \<Rightarrow> (listener \<times> matrix_event) list" where
  "notifications ls (EmitAccountData ty content) = map (\<lambda>l. (l, MatrixEvent ty content)) ls"

section \<open>CrossSigningCallbacks and SSSSCryptoCallbacks\<close>

text \<open>
  Each of the two classes owns one \<^verbatim>\<open>Map\<close> that nothing else refers to, so the
  \<^verbatim>\<open>Map\<close> is a field of the record. An object given to \<^verbatim>\<open>Object.entries\<close> or
  \<^verbatim>\<open>Object.keys\<close> is the list of its own properties in enumeration order.
\<close>

record CrossSigningCallbacks =
  privateKeys :: jsmap

definition new_CrossSigningCallbacks :: CrossSigningCallbacks where
  "new_CrossSigningCallbacks = \<lparr>privateKeys = []\<rparr>"

definition getCrossSigningKey :: "CrossSigningCallbacks \<Rightarrow> string \<Rightarrow> jsval \<Rightarrow> jsval promise" where
  "getCrossSigningKey s ty expectedPubkey = Resolved (map_get (privateKeys s) ty)"

definition getCrossSigningKeyCache :: "CrossSigningCallbacks \<Rightarrow> string \<Rightarrow> jsval \<Rightarrow> jsval promise" where
  "getCrossSigningKeyCache s ty expectedPublicKey = getCrossSigningKey s ty expectedPublicKey"

definition storeCrossSigningKeyCache ::
  "CrossSigningCallbacks \<Rightarrow> string \<Rightarrow> jsval \<Rightarrow> CrossSigningCallbacks \<times> unit promise" where
  "storeCrossSigningKeyCache s ty key =
     (s\<lparr>privateKeys := map_set (privateKeys s) ty key\<rparr>, Resolved ())"

definition saveCrossSigningKeys :: "CrossSigningCallbacks \<Rightarrow> (string \<times> jsval) list \<Rightarrow> CrossSigningCallbacks" where
  "saveCrossSigningKeys s keysByType =
     s\<lparr>privateKeys := foldl (\<lambda>m (ty, privateKey). map_set m ty privateKey) (privateKeys s) keysByType\<rparr>"

record SSSSCryptoCallbacks =
  ssss_privateKeys :: jsmap

definition new_SSSSCryptoCallbacks :: SSSSCryptoCallbacks where
  "new_SSSSCryptoCallbacks = \<lparr>ssss_privateKeys = []\<rparr>"

text \<open>
  The loop of \<^verbatim>\<open>getSecretStorageKey\<close> over \<^verbatim>\<open>Object.keys(keys)\<close>. Falling off the
  end of the function returns \<^verbatim>\<open>undefined\<close>, here \<open>None\<close>.
\<close>

fun findSecretStorageKey :: "jsmap \<Rightarrow> string list \<Rightarrow> (string \<times> jsval) option" where
  "findSecretStorageKey pks [] = None"
| "findSecretStorageKey pks (keyId # keyIds) =
     (let privateKey = map_get pks keyId in
      if truthy privateKey then Some (keyId, privateKey)
      else findSecretStorageKey pks keyIds)"

definition getSecretStorageKey ::
  "SSSSCryptoCallbacks \<Rightarrow> (string \<times> jsval) list \<Rightarrow> string \<Rightarrow> (string \<times> jsval) option" where
  "getSecretStorageKey s keys name = findSecretStorageKey (ssss_privateKeys s) (map fst keys)"

definition addPrivateKey :: "SSSSCryptoCallbacks \<Rightarrow> string \<Rightarrow> jsval \<Rightarrow> SSSSCryptoCallbacks" where
  "addPrivateKey s keyId privKey = s\<lparr>ssss_privateKeys := map_set (ssss_privateKeys s) keyId privKey\<rparr>"

section \<open>EncryptionSetupBuilder and EncryptionSetupOperation\<close>

record EncryptionSetupBuilder =
  accountDataClientAdapter :: adapter
  crossSigningCallbacks :: CrossSigningCallbacks
  ssssCryptoCallbacks :: SSSSCryptoCallbacks
  b_crossSigningKeys :: jsval
  b_keySignatures :: jsval
  b_keyBackupInfo :: jsval

definition new_EncryptionSetupBuilder ::
  "runtime \<Rightarrow> (string \<rightharpoonup> matrix_event) \<Rightarrow> runtime \<times> EncryptionSetupBuilder" where
  "new_EncryptionSetupBuilder rt accountData =
     (case new_AccountDataClientAdapter rt accountData of
        (rt', a) \<Rightarrow>
          (rt', \<lparr>accountDataClientAdapter = a,
                 crossSigningCallbacks = new_CrossSigningCallbacks,
                 ssssCryptoCallbacks = new_SSSSCryptoCallbacks,
                 b_crossSigningKeys = JNull,
                 b_keySignatures = JNull,
                 b_keyBackupInfo = JNull\<rparr>))"

definition builder_setAccountData ::
  "runtime \<Rightarrow> EncryptionSetupBuilder \<Rightarrow> string \<Rightarrow> jsval \<Rightarrow> runtime" where
  "builder_setAccountData rt b ty content =
     setAccountData rt (accountDataClientAdapter b) ty content"

text \<open>
  The operation's \<^verbatim>\<open>_accountData\<close> is a reference to a \<^verbatim>\<open>Map\<close>, or
  \<^verbatim>\<open>null\<close>/\<^verbatim>\<open>undefined\<close> (\<open>None\<close>), which \<^verbatim>\<open>apply\<close> tests for.
\<close>

record EncryptionSetupOperation =
  op_accountData :: "addr option"
  op_crossSigningKeys :: jsval
  op_keyBackupInfo :: jsval
  op_keySignatures :: jsval

definition buildOperation :: "EncryptionSetupBuilder \<Rightarrow> EncryptionSetupOperation" where
  "buildOperation b =
     \<lparr>op_accountData = Some (values_map (accountDataClientAdapter b)),
      op_crossSigningKeys = b_crossSigningKeys b,
      op_keyBackupInfo = b_keyBackupInfo b,
      op_keySignatures = b_keySignatures b\<rparr>"

text \<open>
  The network client \<^verbatim>\<open>crypto._baseApis\<close> is a parameter: its \<^verbatim>\<open>setAccountData\<close>
  takes the client's state, a type and a content, and gives the state after the request
  and, when the promise rejects, the reason.
\<close>

type_synonym ('r, 'e) client = "'r \<Rightarrow> string \<Rightarrow> jsval \<Rightarrow> 'r \<times> 'e option"

text \<open>
  \<^verbatim>\<open>apply\<close> is asynchronous: at each \<^verbatim>\<open>await\<close> it is suspended, and other code
  runs before it resumes. The only code of the file that writes the \<^verbatim>\<open>Map\<close> is
  \<^verbatim>\<open>setAccountData\<close>, reached through the builder that shares the \<^verbatim>\<open>Map\<close>. What
  runs while \<^verbatim>\<open>apply\<close> is suspended is therefore given as an interference: the
  account-data writes made through a builder during the first \<^verbatim>\<open>await\<close>, during the
  second, and so on, and none after the end of the list.
\<close>

type_synonym interference = "(string \<times> jsval) list list"

definition builder_writes ::
  "runtime \<Rightarrow> EncryptionSetupBuilder \<Rightarrow> (string \<times> jsval) list \<Rightarrow> runtime" where
  "builder_writes rt b ws =
     foldl (\<lambda>rt' (ty, content). builder_setAccountData rt' b ty content) rt ws"

text \<open>
  The loop \<^verbatim>\<open>for (const [type, content] of this._accountData)\<close> iterates the live
  \<^verbatim>\<open>Map\<close> at address \<open>a\<close>. The iterator holds a position \<open>i\<close>; each round reads the
  entry at that position from the \<^verbatim>\<open>Map\<close> as it is then, and the loop ends when the
  position is past the last entry. A \<^verbatim>\<open>set\<close> of a key that is there keeps every
  entry's position and a \<^verbatim>\<open>set\<close> of a new key adds its entry at the end, so the
  writes made during an \<^verbatim>\<open>await\<close> are seen by the rounds still to come.
  \<^verbatim>\<open>await\<close> lets the next request start only after the one before is fulfilled, and
  a rejection leaves the loop and rejects the promise of \<^verbatim>\<open>apply\<close>. The result is
  the runtime and the client's state at the end, the requests issued in order, and the
  rejection if any. The loop ends because the interference is finite.
\<close>

function apply_loop ::
  "('r, 'e) client \<Rightarrow> EncryptionSetupBuilder \<Rightarrow> interference \<Rightarrow> addr \<Rightarrow> nat \<Rightarrow> runtime \<Rightarrow> 'r
     \<Rightarrow> runtime \<times> 'r \<times> (string \<times> jsval) list \<times> 'e option" where
  "apply_loop baseApis owner sched a i rt r =
     (if i < length (cells rt a) then
        (case cells rt a ! i of
           (ty, content) \<Rightarrow>
             (case baseApis r ty content of
                (r', res) \<Rightarrow>
                  (let rt' = builder_writes rt owner (case sched of [] \<Rightarrow> [] | ws # _ \<Rightarrow> ws) in
                   case res of
                     Some e \<Rightarrow> (rt', r', [(ty, content)], Some e)
                   | None \<Rightarrow>
                       (case apply_loop baseApis owner (tl sched) a (Suc i) rt' r' of
                          (rt'', r'', sent, res') \<Rightarrow> (rt'', r'', (ty, content) # sent, res')))))
      else (rt, r, [], None))"
  by pat_completeness auto
termination
proof (relation "measure (\<lambda>(baseApis, owner, sched, a, i, rt, r).
          length (concat sched) + length (cells rt a) - i)", goal_cases)
  case 1
  show ?case by simp
next
  case (2 baseApis owner sched a i rt r ty content r' res rt')
  have one: "length (map_set m k v) \<le> Suc (length m)" for m k v
    by (induction m) auto
  have grow: "length (cells (builder_writes rt0 owner ws) a) \<le> length (cells rt0 a) + length ws"
    for rt0 ws
  proof (induction ws arbitrary: rt0)
    case Nil
    then show ?case by (simp add: builder_writes_def)
  next
    case (Cons w ws)
    obtain t c where w: "w = (t, c)" by (cases w)
    have "length (cells (builder_writes (builder_setAccountData rt0 owner t c) owner ws) a)
            \<le> length (cells (builder_setAccountData rt0 owner t c) a) + length ws"
      by (rule Cons.IH)
    also have "\<dots> \<le> Suc (length (cells rt0 a)) + length ws"
      by (simp add: builder_setAccountData_def setAccountData_def one)
    finally show ?case by (simp add: builder_writes_def w)
  qed
  have "length (cells rt' a)
          \<le> length (cells rt a) + length (case sched of [] \<Rightarrow> [] | ws # x \<Rightarrow> ws)"
    unfolding \<open>rt' = _\<close> by (rule grow)
  moreover have "length (concat (tl sched)) + length (case sched of [] \<Rightarrow> [] | ws # x \<Rightarrow> ws)
      = length (concat sched)"
    by (cases sched) simp_all
  ultimately show ?case
    using \<open>i < length (cells rt a)\<close> by simp
qed

declare apply_loop.simps [simp del]

text \<open>
  \<^verbatim>\<open>apply\<close>: nothing is sent when \<^verbatim>\<open>_accountData\<close> is \<^verbatim>\<open>null\<close>; otherwise the
  loop starts at the first entry. \<open>owner\<close> is the builder through which the interfering
  writes are made.
\<close>

definition op_apply ::
  "('r, 'e) client \<Rightarrow> EncryptionSetupBuilder \<Rightarrow> interference \<Rightarrow> runtime
     \<Rightarrow> EncryptionSetupOperation \<Rightarrow> 'r
     \<Rightarrow> runtime \<times> 'r \<times> (string \<times> jsval) list \<times> 'e option" where
  "op_apply baseApis owner sched rt op r =
     (case op_accountData op of
        None \<Rightarrow> (rt, r, [], None)
      | Some a \<Rightarrow> apply_loop baseApis owner sched a 0 rt r)"

text \<open>The four parts of the result of \<^verbatim>\<open>apply\<close>.\<close>

definition runtime_after ::
  "runtime \<times> 'r \<times> (string \<times> jsval) list \<times> 'e option \<Rightarrow> runtime" where
  "runtime_after res = fst res"

definition client_after ::
  "runtime \<times> 'r \<times> (string \<times> jsval) list \<times> 'e option \<Rightarrow> 'r" where
  "client_after res = fst (snd res)"

definition requests ::
  "runtime \<times> 'r \<times> (string \<times> jsval) list \<times> 'e option \<Rightarrow> (string \<times> jsval) list" where
  "requests res = fst (snd (snd res))"

definition rejection ::
  "runtime \<times> 'r \<times> (string \<times> jsval) list \<times> 'e option \<Rightarrow> 'e option" where
  "rejection res = snd (snd (snd res))"

text \<open>The entries of the \<^verbatim>\<open>Map\<close> an operation refers to, as they are in a runtime.\<close>

definition operation_entries :: "runtime \<Rightarrow> EncryptionSetupOperation \<Rightarrow> jsmap" where
  "operation_entries rt op = (case op_accountData op of None \<Rightarrow> [] | Some a \<Rightarrow> cells rt a)"

section \<open>Notions of the specification and example states\<close>

text \<open>
  What the specification calls the existing value's content, or absent: the content of
  the existing entry of a type, \<^verbatim>\<open>null\<close> when there is none.
\<close>

definition existing_content :: "adapter \<Rightarrow> string \<Rightarrow> jsval" where
  "existing_content a ty =
     (case existingValues a ty of
        Some existingValue \<Rightarrow> getContent existingValue
      | None \<Rightarrow> JNull)"

text \<open>
  The replay of a fixed list of entries, one request after the other, up to the first
  rejection: what the loop of \<^verbatim>\<open>apply\<close> comes to when nothing writes the
  \<^verbatim>\<open>Map\<close> while \<^verbatim>\<open>apply\<close> is suspended.
\<close>

fun replay :: "('r, 'e) client \<Rightarrow> 'r \<Rightarrow> jsmap \<Rightarrow> 'r \<times> (string \<times> jsval) list \<times> 'e option" where
  "replay baseApis r [] = (r, [], None)"
| "replay baseApis r ((ty, content) # es) =
     (case baseApis r ty content of
        (r', Some e) \<Rightarrow> (r', [(ty, content)], Some e)
      | (r', None) \<Rightarrow>
          (case replay baseApis r' es of
             (r'', sent, res) \<Rightarrow> (r'', (ty, content) # sent, res)))"

text \<open>
  A builder fresh from its constructor, in a runtime with nothing allocated, over the
  existing account data \<^verbatim>\<open>{"m.foo": {"a": 1}}\<close>.
\<close>

definition empty_runtime :: runtime where
  "empty_runtime = \<lparr>cells = (\<lambda>a. []), next_free = 0, microtasks = [], delivered = []\<rparr>"

definition ex_existing :: "string \<rightharpoonup> matrix_event" where
  "ex_existing = [''m.foo'' \<mapsto> MatrixEvent ''m.foo'' (JObj [(''a'', JNum 1)])]"

definition ex_rt :: runtime where
  "ex_rt = fst (new_EncryptionSetupBuilder empty_runtime ex_existing)"

definition ex_builder :: EncryptionSetupBuilder where
  "ex_builder = snd (new_EncryptionSetupBuilder empty_runtime ex_existing)"

definition ex_adapter :: adapter where
  "ex_adapter = accountDataClientAdapter ex_builder"

text \<open>The same builder after three writes, of \<^verbatim>\<open>"m.one"\<close>, \<^verbatim>\<open>"m.two"\<close> and \<^verbatim>\<open>"m.three"\<close>.\<close>

definition ex_three :: runtime where
  "ex_three =
     builder_setAccountData
       (builder_setAccountData
          (builder_setAccountData ex_rt ex_builder ''m.one'' (JObj [(''n'', JNum 1)]))
          ex_builder ''m.two'' (JObj [(''n'', JNum 2)]))
       ex_builder ''m.three'' (JObj [(''n'', JNum 3)])"

text \<open>
  Two network clients whose state is the list of the writes they have accepted: one
  accepts every write, the other rejects the writes of one type and accepts the rest.
\<close>

definition recording_client :: "((string \<times> jsval) list, string) client" where
  "recording_client r ty content = (r @ [(ty, content)], None)"

definition failing_client :: "string \<Rightarrow> ((string \<times> jsval) list, string) client" where
  "failing_client bad r ty content =
     (if ty = bad then (r, Some ''M_UNKNOWN'') else (r @ [(ty, content)], None))"

text \<open>The state of the network client after it has served a list of writes in order.\<close>

definition remote_after :: "('r, 'e) client \<Rightarrow> 'r \<Rightarrow> (string \<times> jsval) list \<Rightarrow> 'r" where
  "remote_after baseApis r es = foldl (\<lambda>r' (ty, content). fst (baseApis r' ty content)) r es"

text \<open>Writing the same type twice through the builder.\<close>

definition write_twice ::
  "runtime \<Rightarrow> EncryptionSetupBuilder \<Rightarrow> string \<Rightarrow> jsval \<Rightarrow> jsval \<Rightarrow> runtime" where
  "write_twice rt b ty c1 c2 =
     builder_setAccountData (builder_setAccountData rt b ty c1) b ty c2"

text \<open>
  A store of cross-signing keys holding a master and a user-signing key, and a store of
  secret-storage keys holding the key \<^verbatim>\<open>keyId2\<close> only.
\<close>

definition ex_keys :: CrossSigningCallbacks where
  "ex_keys = fst (storeCrossSigningKeyCache
     (fst (storeCrossSigningKeyCache new_CrossSigningCallbacks ''master'' (JBytes [1])))
     ''user_signing'' (JBytes [3]))"

definition ex_ssss :: SSSSCryptoCallbacks where
  "ex_ssss = addPrivateKey new_SSSSCryptoCallbacks ''keyId2'' (JBytes [7, 7, 7])"

text \<open>
  A store of secret-storage keys that holds \<^verbatim>\<open>null\<close> for \<^verbatim>\<open>keyId1\<close> and a byte
  array for \<^verbatim>\<open>keyId2\<close>.
\<close>

definition ex_ssss_falsy :: SSSSCryptoCallbacks where
  "ex_ssss_falsy =
     addPrivateKey (addPrivateKey new_SSSSCryptoCallbacks ''keyId1'' JNull)
       ''keyId2'' (JBytes [7, 7, 7])"

section \<open>Properties of the containers\<close>

lemmas ex_defs = empty_runtime_def ex_existing_def ex_rt_def ex_builder_def ex_adapter_def
  new_EncryptionSetupBuilder_def new_AccountDataClientAdapter_def new_Map_def
  new_CrossSigningCallbacks_def new_SSSSCryptoCallbacks_def

lemmas ex_defs2 = ex_defs ex_three_def builder_setAccountData_def setAccountData_def
  buildOperation_def operation_entries_def op_apply_def pending_def
  recording_client_def failing_client_def remote_after_def builder_writes_def
  runtime_after_def client_after_def requests_def rejection_def

lemma map_get_map_set: "map_get (map_set m k v) k' = (if k' = k then v else map_get m k')"
  by (induction m) auto

lemma map_get_absent: "k \<notin> fst ` set m \<Longrightarrow> map_get m k = JUndefined"
  by (induction m) auto

lemma pending_setAccountData:
  "pending (setAccountData rt a ty c) a = map_set (pending rt a) ty c"
  by (simp add: pending_def setAccountData_def)

lemma getAccountData_eq:
  "getAccountData rt a ty =
     (if truthy (map_get (pending rt a) ty) then map_get (pending rt a) ty
      else existing_content a ty)"
  by (simp add: getAccountData_def pending_def existing_content_def Let_def)

lemma map_fst_map_set:
  "map fst (map_set m k v) = (if k \<in> fst ` set m then map fst m else map fst m @ [k])"
  by (induction m) force+

lemma map_set_twice: "map_set (map_set m k v) k v' = map_set m k v'"
  by (induction m) auto

lemma distinct_map_set: "distinct (map fst m) \<Longrightarrow> distinct (map fst (map_set m k v))"
  by (induction m) (auto simp: map_fst_map_set split: if_splits)

lemma filter_absent: "k \<notin> fst ` set m \<Longrightarrow> filter (\<lambda>e. fst e = k) m = []"
  by (induction m) auto

lemma filter_map_set:
  "distinct (map fst m) \<Longrightarrow> filter (\<lambda>e. fst e = k) (map_set m k v) = [(k, v)]"
  by (induction m) (auto simp: filter_absent)

lemma operation_entries_buildOperation:
  "operation_entries rt (buildOperation b) = pending rt (accountDataClientAdapter b)"
  by (simp add: operation_entries_def buildOperation_def pending_def)

lemma pending_builder_setAccountData:
  "pending (builder_setAccountData rt b ty c) (accountDataClientAdapter b)
     = map_set (pending rt (accountDataClientAdapter b)) ty c"
  by (simp add: builder_setAccountData_def pending_setAccountData)

lemma replay_fulfilled:
  "\<forall>r ty content. snd (baseApis r ty content) = None \<Longrightarrow>
   replay baseApis r es = (remote_after baseApis r es, es, None)"
proof (induction es arbitrary: r)
  case Nil
  then show ?case by (simp add: remote_after_def)
next
  case (Cons e es)
  obtain ty content where e: "e = (ty, content)" by (cases e)
  obtain r' where r': "baseApis r ty content = (r', None)"
    using Cons.prems by (metis prod.collapse)
  show ?case
    using Cons.IH [OF Cons.prems, of r'] by (simp add: e r' remote_after_def)
qed

lemma replay_sent_prefix:
  "fst (snd (replay baseApis r es)) = take (length (fst (snd (replay baseApis r es)))) es"
  by (induction baseApis r es rule: replay.induct) (auto split: prod.splits option.splits)

lemma replay_fulfilled_sent:
  "snd (snd (replay baseApis r es)) = None \<Longrightarrow> fst (snd (replay baseApis r es)) = es"
  by (induction baseApis r es rule: replay.induct) (auto split: prod.splits option.splits)




lemma map_get_foldl_map_set_absent:
  "ty \<notin> fst ` set es \<Longrightarrow>
   map_get (foldl (\<lambda>m (t, k). map_set m t k) m es) ty = map_get m ty"
  by (induction es arbitrary: m) (auto simp: map_get_map_set)

lemma map_get_foldl_map_set_present:
  "distinct (map fst es) \<Longrightarrow> (ty, k) \<in> set es \<Longrightarrow>
   map_get (foldl (\<lambda>m (t, k). map_set m t k) m es) ty = k"
proof (induction es arbitrary: m)
  case Nil
  then show ?case by simp
next
  case (Cons x es)
  obtain t v where x: "x = (t, v)" by (cases x)
  show ?case
  proof (cases "(ty, k) = x")
    case True
    then have "ty \<notin> fst ` set es" using Cons.prems(1) by (auto simp: x)
    then show ?thesis
      using True by (simp add: x map_get_foldl_map_set_absent map_get_map_set)
  next
    case False
    then have "(ty, k) \<in> set es" using Cons.prems(2) by simp
    then show ?thesis
      using Cons.IH [of "map_set m t v"] Cons.prems(1) by (simp add: x)
  qed
qed

lemma map_get_present: "k \<in> fst ` set m \<Longrightarrow> map_get m k \<in> snd ` set m"
  by (induction m) force+

lemma truthy_map_get_iff:
  "\<forall>v \<in> snd ` set pks. truthy v \<Longrightarrow> truthy (map_get pks keyId) = (keyId \<in> fst ` set pks)"
proof (cases "keyId \<in> fst ` set pks")
  case True
  assume "\<forall>v \<in> snd ` set pks. truthy v"
  with map_get_present [OF True] show ?thesis using True by blast
next
  case False
  then show ?thesis by (simp add: map_get_absent)
qed

lemma findSecretStorageKey_find:
  "\<forall>v \<in> snd ` set pks. truthy v \<Longrightarrow>
   findSecretStorageKey pks keyIds =
     (case find (\<lambda>keyId. keyId \<in> fst ` set pks) keyIds of
        None \<Rightarrow> None
      | Some keyId \<Rightarrow> Some (keyId, map_get pks keyId))"
  by (induction keyIds) (simp_all add: truthy_map_get_iff Let_def)

lemma findSecretStorageKey_truthy:
  "findSecretStorageKey pks keyIds =
     (case find (\<lambda>keyId. truthy (map_get pks keyId)) keyIds of
        None \<Rightarrow> None
      | Some keyId \<Rightarrow> Some (keyId, map_get pks keyId))"
  by (induction keyIds) (simp_all add: Let_def)

lemma foldl_sync_step_microtasks:
  "microtasks (fst (foldl sync_step (rt, a) acts)) = microtasks rt @ writes_of acts"
  by (induction acts arbitrary: rt a rule: writes_of.induct) (simp_all add: setAccountData_def)

lemma foldl_sync_step_delivered:
  "delivered (fst (foldl sync_step (rt, a) acts)) = delivered rt"
  by (induction acts arbitrary: rt a rule: writes_of.induct) (simp_all add: setAccountData_def)

lemma foldl_sync_step_listeners:
  "listeners (snd (foldl sync_step (rt, a) acts)) = listeners a @ subscriptions_of acts"
  by (induction acts arbitrary: rt a rule: writes_of.induct) (simp_all add: addListener_def)

lemma foldl_run_microtask_delivered:
  "delivered (foldl (run_microtask a) rt ms)
     = delivered rt @ concat (map (notifications (listeners a)) ms)"
proof (induction ms arbitrary: rt)
  case Nil
  then show ?case by simp
next
  case (Cons m ms)
  then show ?case by (cases m) (simp add: emit_def)
qed

lemma foldl_run_microtask_microtasks:
  "microtasks (foldl (run_microtask a) rt ms) = microtasks rt"
proof (induction ms arbitrary: rt)
  case Nil
  then show ?case by simp
next
  case (Cons m ms)
  then show ?case by (cases m) (simp add: emit_def)
qed

lemma builder_writes_Nil: "builder_writes rt b [] = rt"
  by (simp add: builder_writes_def)

lemma replay_drop:
  "i < length es \<Longrightarrow>
   replay baseApis r (drop i es) =
     (case baseApis r (fst (es ! i)) (snd (es ! i)) of
        (r', Some e) \<Rightarrow> (r', [es ! i], Some e)
      | (r', None) \<Rightarrow>
          (case replay baseApis r' (drop (Suc i) es) of
             (r'', sent, res) \<Rightarrow> (r'', es ! i # sent, res)))"
proof -
  assume "i < length es"
  then have d: "drop i es = es ! i # drop (Suc i) es"
    by (simp add: Cons_nth_drop_Suc)
  obtain ty content where e: "es ! i = (ty, content)" by (cases "es ! i")
  show ?thesis by (simp add: d e split: prod.splits option.splits)
qed

text \<open>Nothing written while suspended: the loop is the replay of the entries not yet reached.\<close>

lemma apply_loop_undisturbed:
  "sched = [] \<Longrightarrow>
   apply_loop baseApis owner sched a i rt r
     = (case replay baseApis r (drop i (cells rt a)) of (r', sent, res) \<Rightarrow> (rt, r', sent, res))"
proof (induction baseApis owner sched a i rt r rule: apply_loop.induct)
  case (1 baseApis owner sched a i rt r)
  show ?case
  proof (cases "i < length (cells rt a)")
    case False
    then show ?thesis by (simp add: apply_loop.simps [of _ _ _ a i rt])
  next
    case True
    obtain ty content where e: "cells rt a ! i = (ty, content)" by (cases "cells rt a ! i")
    obtain r' res where c: "baseApis r ty content = (r', res)" by (cases "baseApis r ty content")
    show ?thesis
    proof (cases res)
      case (Some err)
      then show ?thesis
        using True 1(2)
        by (simp add: apply_loop.simps [of _ _ _ a i rt] replay_drop e c builder_writes_Nil)
    next
      case None
      have "apply_loop baseApis owner (tl sched) a (Suc i) rt r'
              = (case replay baseApis r' (drop (Suc i) (cells rt a)) of
                   (r'', sent, res) \<Rightarrow> (rt, r'', sent, res))"
        using 1(1) [OF True e [symmetric] c [symmetric] _ None] 1(2)
        by (simp add: builder_writes_Nil)
      then show ?thesis
        using True 1(2) None
        by (simp add: apply_loop.simps [of _ _ _ a i rt] replay_drop e c builder_writes_Nil
            split: prod.splits)
    qed
  qed
qed

lemma op_apply_undisturbed:
  "op_apply baseApis owner [] rt op r
     = (case replay baseApis r (operation_entries rt op) of
          (r', sent, res) \<Rightarrow> (rt, r', sent, res))"
  by (simp add: op_apply_def operation_entries_def apply_loop_undisturbed split: option.splits)

lemma apply_loop_done:
  "\<not> i < length (cells rt a) \<Longrightarrow> apply_loop baseApis owner sched a i rt r = (rt, r, [], None)"
  by (simp add: apply_loop.simps [of _ _ _ a i rt])

lemma apply_loop_rejected:
  "i < length (cells rt a) \<Longrightarrow> cells rt a ! i = (ty, content) \<Longrightarrow>
   baseApis r ty content = (r', Some e) \<Longrightarrow>
   apply_loop baseApis owner sched a i rt r
     = (builder_writes rt owner (case sched of [] \<Rightarrow> [] | ws # _ \<Rightarrow> ws), r',
        [(ty, content)], Some e)"
  by (simp add: apply_loop.simps [of _ _ _ a i rt])

lemma apply_loop_accepted:
  "i < length (cells rt a) \<Longrightarrow> cells rt a ! i = (ty, content) \<Longrightarrow>
   baseApis r ty content = (r', None) \<Longrightarrow>
   apply_loop baseApis owner sched a i rt r
     = (case apply_loop baseApis owner (tl sched) a (Suc i)
               (builder_writes rt owner (case sched of [] \<Rightarrow> [] | ws # _ \<Rightarrow> ws)) r' of
          (rt'', r'', sent, res') \<Rightarrow> (rt'', r'', (ty, content) # sent, res'))"
  by (simp add: apply_loop.simps [of _ _ _ a i rt])

lemma prefix_keys_map_set: "prefix (map fst m) (map fst (map_set m k v))"
  by (simp add: map_fst_map_set)

lemma prefix_keys_builder_setAccountData:
  "prefix (map fst (cells rt a)) (map fst (cells (builder_setAccountData rt b ty c) a))"
  by (simp add: builder_setAccountData_def setAccountData_def prefix_keys_map_set)

lemma prefix_keys_builder_writes:
  "prefix (map fst (cells rt a)) (map fst (cells (builder_writes rt b ws) a))"
proof (induction ws arbitrary: rt)
  case Nil
  then show ?case by (simp add: builder_writes_def)
next
  case (Cons w ws)
  obtain ty c where w: "w = (ty, c)" by (cases w)
  have "prefix (map fst (cells rt a)) (map fst (cells (builder_setAccountData rt b ty c) a))"
    by (rule prefix_keys_builder_setAccountData)
  also have "prefix \<dots> (map fst (cells (builder_writes (builder_setAccountData rt b ty c) b ws) a))"
    by (rule Cons.IH)
  finally show ?case by (simp add: builder_writes_def w)
qed

text \<open>The keys of the Map only grow at the end while the loop runs.\<close>

lemma prefix_keys_apply_loop:
  "prefix (map fst (cells rt a))
     (map fst (cells (fst (apply_loop baseApis owner sched a i rt r)) a))"
proof (induction baseApis owner sched a i rt r rule: apply_loop.induct)
  case (1 baseApis owner sched a i rt r)
  let ?rt' = "builder_writes rt owner (case sched of [] \<Rightarrow> [] | ws # _ \<Rightarrow> ws)"
  show ?case
  proof (cases "i < length (cells rt a)")
    case False
    then show ?thesis by (simp add: apply_loop_done)
  next
    case True
    obtain ty content where e: "cells rt a ! i = (ty, content)" by (cases "cells rt a ! i")
    obtain r' res where c: "baseApis r ty content = (r', res)" by (cases "baseApis r ty content")
    show ?thesis
    proof (cases res)
      case (Some err)
      then show ?thesis
        by (simp add: apply_loop_rejected [OF True e] c prefix_keys_builder_writes)
    next
      case None
      have "prefix (map fst (cells rt a)) (map fst (cells ?rt' a))"
        by (rule prefix_keys_builder_writes)
      also have "prefix \<dots>
          (map fst (cells (fst (apply_loop baseApis owner (tl sched) a (Suc i) ?rt' r')) a))"
        by (rule 1 [OF True e [symmetric] c [symmetric] refl None])
      finally have p: "prefix (map fst (cells rt a))
          (map fst (cells (fst (apply_loop baseApis owner (tl sched) a (Suc i) ?rt' r')) a))" .
      obtain rt2 r2 sent2 res2
        where rec: "apply_loop baseApis owner (tl sched) a (Suc i) ?rt' r' = (rt2, r2, sent2, res2)"
        using prod_cases4 by blast
      show ?thesis
        using p None by (simp add: apply_loop_accepted [OF True e] c rec)
    qed
  qed
qed




lemma prefix_nth: "prefix xs ys \<Longrightarrow> i < length xs \<Longrightarrow> ys ! i = xs ! i"
  by (auto simp: prefix_def nth_append)

text \<open>
  With a client that rejects nothing the run is fulfilled, and from position \<open>i\<close> on it
  issues one request per key of the Map as the Map is at the end.
\<close>

lemma apply_loop_fulfilled:
  "\<forall>r ty content. snd (baseApis r ty content) = None \<Longrightarrow>
   snd (snd (snd (apply_loop baseApis owner sched a i rt r))) = None \<and>
   map fst (fst (snd (snd (apply_loop baseApis owner sched a i rt r))))
     = drop i (map fst (cells (fst (apply_loop baseApis owner sched a i rt r)) a))"
proof (induction baseApis owner sched a i rt r rule: apply_loop.induct)
  case (1 baseApis owner sched a i rt r)
  let ?rt' = "builder_writes rt owner (case sched of [] \<Rightarrow> [] | ws # _ \<Rightarrow> ws)"
  show ?case
  proof (cases "i < length (cells rt a)")
    case False
    then show ?thesis by (simp add: apply_loop_done)
  next
    case True
    obtain ty content where e: "cells rt a ! i = (ty, content)" by (cases "cells rt a ! i")
    obtain r' where c: "baseApis r ty content = (r', None)"
      using 1(2) by (metis prod.collapse)
    let ?rec = "apply_loop baseApis owner (tl sched) a (Suc i) ?rt' r'"
    let ?keys = "map fst (cells (fst ?rec) a)"
    have ih: "snd (snd (snd ?rec)) = None \<and> map fst (fst (snd (snd ?rec))) = drop (Suc i) ?keys"
      by (rule 1(1) [OF True e [symmetric] c [symmetric] refl refl 1(2)])
    have "prefix (map fst (cells rt a)) (map fst (cells ?rt' a))"
      by (rule prefix_keys_builder_writes)
    also have "prefix \<dots> ?keys"
      by (rule prefix_keys_apply_loop)
    finally have p: "prefix (map fst (cells rt a)) ?keys" .
    have "length (map fst (cells rt a)) \<le> length ?keys"
      using p by (rule prefix_length_le)
    then have len: "i < length ?keys"
      using True by simp
    have "?keys ! i = map fst (cells rt a) ! i"
      using p True by (simp add: prefix_nth)
    then have k: "?keys ! i = ty"
      using True by (simp add: e)
    have "drop i ?keys = ty # drop (Suc i) ?keys"
      using Cons_nth_drop_Suc [OF len] k by simp
    moreover obtain rt2 r2 sent2 res2 where rec: "?rec = (rt2, r2, sent2, res2)"
      using prod_cases4 by blast
    ultimately show ?thesis
      using ih c by (simp add: apply_loop_accepted [OF True e] rec)
  qed
qed

section \<open>Reading account data through the adapter\<close>

text \<open>
  Claim C4, as the code has it. Read after write returns the written content when that
  content is truthy, as every object is, also after later writes of other types; a type
  with no pending entry reads as the existing entry's content, or \<^verbatim>\<open>null\<close> when
  there is none; and a read is always either the whole pending value or the whole
  existing content, never a mixture of the two.
\<close>

theorem getAccountData_pending_shadows_existing:
  "(truthy c \<longrightarrow> getAccountData (setAccountData rt a ty c) a ty = c) \<and>
   (truthy c \<and> ty' \<noteq> ty \<longrightarrow>
      getAccountData (setAccountData (setAccountData rt a ty c) a ty' c') a ty = c) \<and>
   (ty \<notin> fst ` set (pending rt a) \<longrightarrow> getAccountData rt a ty = existing_content a ty) \<and>
   (getAccountData rt a ty = map_get (pending rt a) ty \<or>
    getAccountData rt a ty = existing_content a ty)"
  by (simp add: getAccountData_eq pending_setAccountData map_get_map_set map_get_absent)

theorem getAccountData_pending_shadows_existing_witness:
  "truthy (JObj [(''b'', JNum 9)]) \<and>
   getAccountData (setAccountData ex_rt ex_adapter ''m.bar'' (JObj [(''b'', JNum 9)]))
     ex_adapter ''m.bar'' = JObj [(''b'', JNum 9)] \<and>
   getAccountData
     (setAccountData (setAccountData ex_rt ex_adapter ''m.bar'' (JObj [(''b'', JNum 9)]))
        ex_adapter ''m.foo'' JNull)
     ex_adapter ''m.bar'' = JObj [(''b'', JNum 9)] \<and>
   ''m.foo'' \<notin> fst ` set (pending ex_rt ex_adapter) \<and>
   getAccountData ex_rt ex_adapter ''m.foo'' = JObj [(''a'', JNum 1)] \<and>
   ''m.baz'' \<notin> fst ` set (pending ex_rt ex_adapter) \<and>
   getAccountData ex_rt ex_adapter ''m.baz'' = JNull"
  using
    getAccountData_pending_shadows_existing
      [of "JObj [(''b'', JNum 9)]" ex_rt ex_adapter "''m.bar''" "''m.foo''" JNull]
    getAccountData_pending_shadows_existing [of JNull ex_rt ex_adapter "''m.foo''"]
    getAccountData_pending_shadows_existing [of JNull ex_rt ex_adapter "''m.baz''"]
  by (simp add: ex_defs pending_def existing_content_def)

text \<open>
  Claim C4 as stated fails: over the existing entry \<^verbatim>\<open>{"m.foo": {"a": 1}}\<close>, after
  \<^verbatim>\<open>setAccountData("m.foo", null)\<close> the read of \<^verbatim>\<open>"m.foo"\<close> is not the written
  \<^verbatim>\<open>null\<close>: it is the existing content.
\<close>

theorem getAccountData_after_write_counterexample:
  "getAccountData (setAccountData ex_rt ex_adapter ''m.foo'' JNull) ex_adapter ''m.foo''
     = JObj [(''a'', JNum 1)] \<and>
   getAccountData (setAccountData ex_rt ex_adapter ''m.foo'' JNull) ex_adapter ''m.foo''
     \<noteq> JNull"
  by (simp add: ex_defs getAccountData_def setAccountData_def)

text \<open>
  Claim C10. A write records its content whatever it is. When the pending value stored
  for a type is falsy, \<^verbatim>\<open>getAccountData\<close> and \<^verbatim>\<open>getAccountDataFromServer\<close> pass over
  it and give the existing entry's content, or \<^verbatim>\<open>null\<close> when there is none; the
  pending value is what they give exactly when it is truthy.
\<close>

theorem falsy_pending_value_is_ignored:
  "map_get (pending (setAccountData rt a ty c) a) ty = c \<and>
   (\<not> truthy (map_get (pending rt a) ty) \<longrightarrow>
      getAccountData rt a ty = existing_content a ty \<and>
      getAccountDataFromServer rt a ty = Resolved (existing_content a ty)) \<and>
   (truthy (map_get (pending rt a) ty) \<longrightarrow>
      getAccountData rt a ty = map_get (pending rt a) ty \<and>
      getAccountDataFromServer rt a ty = Resolved (map_get (pending rt a) ty))"
  by (simp add: getAccountData_eq getAccountDataFromServer_def pending_setAccountData
      map_get_map_set)

theorem falsy_pending_value_is_ignored_witness:
  "map_get (pending (setAccountData ex_rt ex_adapter ''m.foo'' (JBool False)) ex_adapter) ''m.foo''
     = JBool False \<and>
   \<not> truthy (JBool False) \<and>
   getAccountData (setAccountData ex_rt ex_adapter ''m.foo'' (JBool False)) ex_adapter ''m.foo''
     = JObj [(''a'', JNum 1)] \<and>
   getAccountDataFromServer (setAccountData ex_rt ex_adapter ''m.bar'' JNull) ex_adapter ''m.bar''
     = Resolved JNull \<and>
   truthy (JStr ''x'') \<and>
   getAccountDataFromServer (setAccountData ex_rt ex_adapter ''m.foo'' (JStr ''x'')) ex_adapter ''m.foo''
     = Resolved (JStr ''x'')"
  using
    falsy_pending_value_is_ignored [of ex_rt ex_adapter "''m.foo''" "JBool False"]
    falsy_pending_value_is_ignored
      [of "setAccountData ex_rt ex_adapter ''m.foo'' (JBool False)" ex_adapter "''m.foo''"]
    falsy_pending_value_is_ignored
      [of "setAccountData ex_rt ex_adapter ''m.bar'' JNull" ex_adapter "''m.bar''"]
    falsy_pending_value_is_ignored
      [of "setAccountData ex_rt ex_adapter ''m.foo'' (JStr ''x'')" ex_adapter "''m.foo''"]
  by (simp add: ex_defs pending_def existing_content_def setAccountData_def)

section \<open>Building the operation\<close>

text \<open>
  Claim C1, as the code has it. \<^verbatim>\<open>buildOperation\<close> hands the operation the
  builder's \<^verbatim>\<open>Map\<close> of pending account data itself, not a copy of it: at every
  moment the entries the operation replays are the builder's pending entries of that
  moment, so a write made after the build is replayed as well. The builder's stores of
  cross-signing keys and of secret-storage keys are not reachable from the operation.
\<close>

theorem buildOperation_shares_pending_map:
  "operation_entries rt (buildOperation b) = pending rt (accountDataClientAdapter b) \<and>
   operation_entries (builder_setAccountData rt b ty c) (buildOperation b)
     = map_set (operation_entries rt (buildOperation b)) ty c \<and>
   buildOperation (b\<lparr>crossSigningCallbacks := cs, ssssCryptoCallbacks := ss\<rparr>) = buildOperation b"
  by (simp add: operation_entries_buildOperation pending_builder_setAccountData)
    (simp add: buildOperation_def)

text \<open>
  Claim C1 as stated fails: an operation is built from a fresh builder, with nothing
  pending; the builder then writes \<^verbatim>\<open>"m.new"\<close>; the operation built before now
  holds that entry and \<^verbatim>\<open>apply\<close> sends it.
\<close>

theorem buildOperation_snapshot_counterexample:
  "operation_entries ex_rt (buildOperation ex_builder) = [] \<and>
   operation_entries (builder_setAccountData ex_rt ex_builder ''m.new'' (JObj []))
     (buildOperation ex_builder) = [(''m.new'', JObj [])] \<and>
   requests (op_apply recording_client ex_builder []
      (builder_setAccountData ex_rt ex_builder ''m.new'' (JObj []))
      (buildOperation ex_builder) []) = [(''m.new'', JObj [])]"
  by (simp add: ex_defs2 apply_loop.simps)

section \<open>Applying the operation\<close>

text \<open>
  Claim C2, as the code has it. \<^verbatim>\<open>apply\<close> iterates the live \<^verbatim>\<open>Map\<close> that the
  operation shares with the builder. When nothing is written through the builder while
  \<^verbatim>\<open>apply\<close> is suspended and the client rejects no write, \<^verbatim>\<open>apply\<close> is
  fulfilled and has issued exactly one \<^verbatim>\<open>setAccountData\<close> per entry of the
  \<^verbatim>\<open>Map\<close> as it is when \<^verbatim>\<open>apply\<close> starts, in the order of the \<^verbatim>\<open>Map\<close>, each
  on the client's state left by the one before; it does so from any state of the client,
  hence again after an earlier \<^verbatim>\<open>apply\<close>; whenever such a run is fulfilled the
  requests are exactly these entries, and they are always a prefix of them. With writes
  made while \<^verbatim>\<open>apply\<close> is suspended and a client that rejects nothing, \<^verbatim>\<open>apply\<close>
  is fulfilled with one request per type of the \<^verbatim>\<open>Map\<close> as it is at the end, in the
  order of the \<^verbatim>\<open>Map\<close>, the types present at the start coming first. The captured
  cross-signing keys, key-backup info and key signatures have no influence on what
  \<^verbatim>\<open>apply\<close> does.
\<close>

theorem apply_sends_each_entry_once_in_order:
  "((\<forall>r' ty content. snd (baseApis r' ty content) = None) \<longrightarrow>
      op_apply baseApis owner [] rt op r
        = (rt, remote_after baseApis r (operation_entries rt op), operation_entries rt op, None) \<and>
      requests (op_apply baseApis owner [] rt op
                  (client_after (op_apply baseApis owner [] rt op r)))
        = operation_entries rt op) \<and>
   (rejection (op_apply baseApis owner [] rt op r) = None \<longrightarrow>
      requests (op_apply baseApis owner [] rt op r) = operation_entries rt op) \<and>
   requests (op_apply baseApis owner [] rt op r)
     = take (length (requests (op_apply baseApis owner [] rt op r))) (operation_entries rt op) \<and>
   ((\<forall>r' ty content. snd (baseApis r' ty content) = None) \<longrightarrow>
      rejection (op_apply baseApis owner sched rt op r) = None \<and>
      map fst (requests (op_apply baseApis owner sched rt op r))
        = map fst (operation_entries (runtime_after (op_apply baseApis owner sched rt op r)) op) \<and>
      take (length (operation_entries rt op))
          (map fst (requests (op_apply baseApis owner sched rt op r)))
        = map fst (operation_entries rt op)) \<and>
   op_apply baseApis owner sched rt
       (op\<lparr>op_crossSigningKeys := x, op_keyBackupInfo := y, op_keySignatures := z\<rparr>) r
     = op_apply baseApis owner sched rt op r"
proof -
  have other: "op_apply baseApis owner sched rt
       (op\<lparr>op_crossSigningKeys := x, op_keyBackupInfo := y, op_keySignatures := z\<rparr>) r
     = op_apply baseApis owner sched rt op r"
    by (simp add: op_apply_def)
  have all: "(\<forall>r' ty content. snd (baseApis r' ty content) = None) \<longrightarrow>
      op_apply baseApis owner [] rt op r
        = (rt, remote_after baseApis r (operation_entries rt op), operation_entries rt op, None) \<and>
      requests (op_apply baseApis owner [] rt op
                  (client_after (op_apply baseApis owner [] rt op r)))
        = operation_entries rt op"
    by (simp add: op_apply_undisturbed replay_fulfilled requests_def)
  obtain r1 sent1 res1
    where rp: "replay baseApis r (operation_entries rt op) = (r1, sent1, res1)"
    using prod_cases3 by blast
  have ok: "rejection (op_apply baseApis owner [] rt op r) = None \<longrightarrow>
      requests (op_apply baseApis owner [] rt op r) = operation_entries rt op"
    using replay_fulfilled_sent [of baseApis r "operation_entries rt op"]
    by (simp add: op_apply_undisturbed rp requests_def rejection_def)
  have pre: "requests (op_apply baseApis owner [] rt op r)
     = take (length (requests (op_apply baseApis owner [] rt op r))) (operation_entries rt op)"
    using replay_sent_prefix [of baseApis r "operation_entries rt op"]
    by (simp add: op_apply_undisturbed rp requests_def)
  have live: "(\<forall>r' ty content. snd (baseApis r' ty content) = None) \<longrightarrow>
      rejection (op_apply baseApis owner sched rt op r) = None \<and>
      map fst (requests (op_apply baseApis owner sched rt op r))
        = map fst (operation_entries (runtime_after (op_apply baseApis owner sched rt op r)) op) \<and>
      take (length (operation_entries rt op))
          (map fst (requests (op_apply baseApis owner sched rt op r)))
        = map fst (operation_entries rt op)"
  proof (cases "op_accountData op")
    case None
    then show ?thesis
      by (simp add: op_apply_def operation_entries_def requests_def rejection_def runtime_after_def)
  next
    case (Some a)
    show ?thesis
    proof
      assume h: "\<forall>r' ty content. snd (baseApis r' ty content) = None"
      let ?res = "apply_loop baseApis owner sched a 0 rt r"
      have f: "snd (snd (snd ?res)) = None \<and>
          map fst (fst (snd (snd ?res))) = drop 0 (map fst (cells (fst ?res) a))"
        by (rule apply_loop_fulfilled [OF h])
      have "prefix (map fst (cells rt a)) (map fst (cells (fst ?res) a))"
        by (rule prefix_keys_apply_loop)
      then have "take (length (map fst (cells rt a))) (map fst (cells (fst ?res) a))
          = map fst (cells rt a)"
        by (auto simp: prefix_def)
      then show "rejection (op_apply baseApis owner sched rt op r) = None \<and>
        map fst (requests (op_apply baseApis owner sched rt op r))
          = map fst (operation_entries (runtime_after (op_apply baseApis owner sched rt op r)) op) \<and>
        take (length (operation_entries rt op))
            (map fst (requests (op_apply baseApis owner sched rt op r)))
          = map fst (operation_entries rt op)"
        using f
        by (simp add: op_apply_def operation_entries_def requests_def rejection_def
            runtime_after_def Some)
    qed
  qed
  from other all ok pre live show ?thesis by blast
qed

theorem apply_sends_each_entry_once_in_order_witness:
  "(\<forall>r ty content. snd (recording_client r ty content) = None) \<and>
   rejection (op_apply recording_client ex_builder [] ex_three (buildOperation ex_builder) [])
     = None \<and>
   op_apply recording_client ex_builder [] ex_three (buildOperation ex_builder) []
     = (ex_three,
        [(''m.one'', JObj [(''n'', JNum 1)]), (''m.two'', JObj [(''n'', JNum 2)]),
         (''m.three'', JObj [(''n'', JNum 3)])],
        [(''m.one'', JObj [(''n'', JNum 1)]), (''m.two'', JObj [(''n'', JNum 2)]),
         (''m.three'', JObj [(''n'', JNum 3)])],
        None) \<and>
   map fst (requests (op_apply recording_client ex_builder [[(''m.four'', JObj [])]] ex_three
                        (buildOperation ex_builder) []))
     = [''m.one'', ''m.two'', ''m.three'', ''m.four'']"
proof -
  have h: "\<forall>r ty content. snd (recording_client r ty content) = None"
    by (simp add: recording_client_def)
  have es: "operation_entries ex_three (buildOperation ex_builder)
      = [(''m.one'', JObj [(''n'', JNum 1)]), (''m.two'', JObj [(''n'', JNum 2)]),
         (''m.three'', JObj [(''n'', JNum 3)])]"
    by (simp add: ex_defs2)
  have ra: "remote_after recording_client []
        [(''m.one'', JObj [(''n'', JNum 1)]), (''m.two'', JObj [(''n'', JNum 2)]),
         (''m.three'', JObj [(''n'', JNum 3)])]
      = [(''m.one'', JObj [(''n'', JNum 1)]), (''m.two'', JObj [(''n'', JNum 2)]),
         (''m.three'', JObj [(''n'', JNum 3)])]"
    by (simp add: remote_after_def recording_client_def)
  have fin: "operation_entries
        (runtime_after (op_apply recording_client ex_builder [[(''m.four'', JObj [])]] ex_three
                          (buildOperation ex_builder) []))
        (buildOperation ex_builder)
      = [(''m.one'', JObj [(''n'', JNum 1)]), (''m.two'', JObj [(''n'', JNum 2)]),
         (''m.three'', JObj [(''n'', JNum 3)]), (''m.four'', JObj [])]"
    by (simp add: ex_defs2 apply_loop.simps)
  show ?thesis
    using h
      apply_sends_each_entry_once_in_order
        [of recording_client ex_builder ex_three "buildOperation ex_builder" "[]"
            "[[(''m.four'', JObj [])]]"]
    by (simp add: es ra fin rejection_def)
qed

text \<open>
  Claim C2 as stated fails: the operation is built when \<^verbatim>\<open>"m.one"\<close>,
  \<^verbatim>\<open>"m.two"\<close> and \<^verbatim>\<open>"m.three"\<close> are pending; while \<^verbatim>\<open>apply\<close> awaits its
  first request the builder writes \<^verbatim>\<open>"m.four"\<close>; \<^verbatim>\<open>apply\<close> is fulfilled after
  four requests, the last of them for an entry that was not captured.
\<close>

theorem apply_sends_uncaptured_entry_counterexample:
  "operation_entries ex_three (buildOperation ex_builder)
     = [(''m.one'', JObj [(''n'', JNum 1)]), (''m.two'', JObj [(''n'', JNum 2)]),
        (''m.three'', JObj [(''n'', JNum 3)])] \<and>
   requests (op_apply recording_client ex_builder [[(''m.four'', JObj [])]] ex_three
               (buildOperation ex_builder) [])
     = [(''m.one'', JObj [(''n'', JNum 1)]), (''m.two'', JObj [(''n'', JNum 2)]),
        (''m.three'', JObj [(''n'', JNum 3)]), (''m.four'', JObj [])] \<and>
   rejection (op_apply recording_client ex_builder [[(''m.four'', JObj [])]] ex_three
                (buildOperation ex_builder) [])
     = None"
  by (simp add: ex_defs2 apply_loop.simps)



section \<open>Writing a type twice\<close>

text \<open>
  Claim C5, as the code has it. After two writes of the same type with contents \<open>c1\<close>
  then \<open>c2\<close>: a read of the type gives \<open>c2\<close> when \<open>c2\<close> is truthy; the pending
  entries are those of a single write of \<open>c2\<close>, in the key order that the first write
  left (the type keeps its place if it was pending before the first write, and stands
  last otherwise); exactly one entry has the type, with content \<open>c2\<close>; and
  \<^verbatim>\<open>apply\<close> on a client that rejects nothing sends exactly these entries.
\<close>

theorem rewrite_is_last_write_wins:
  "(truthy c2 \<longrightarrow> getAccountData (write_twice rt b ty c1 c2) (accountDataClientAdapter b) ty = c2) \<and>
   operation_entries (write_twice rt b ty c1 c2) (buildOperation b)
     = map_set (pending rt (accountDataClientAdapter b)) ty c2 \<and>
   map fst (operation_entries (write_twice rt b ty c1 c2) (buildOperation b))
     = map fst (operation_entries (builder_setAccountData rt b ty c1) (buildOperation b)) \<and>
   map fst (operation_entries (builder_setAccountData rt b ty c1) (buildOperation b))
     = (if ty \<in> fst ` set (pending rt (accountDataClientAdapter b))
        then map fst (pending rt (accountDataClientAdapter b))
        else map fst (pending rt (accountDataClientAdapter b)) @ [ty]) \<and>
   (distinct (map fst (pending rt (accountDataClientAdapter b))) \<longrightarrow>
      filter (\<lambda>e. fst e = ty) (operation_entries (write_twice rt b ty c1 c2) (buildOperation b))
        = [(ty, c2)]) \<and>
   ((\<forall>r ty' content. snd (baseApis r ty' content) = None) \<longrightarrow>
      requests (op_apply baseApis b [] (write_twice rt b ty c1 c2) (buildOperation b) r0)
        = operation_entries (write_twice rt b ty c1 c2) (buildOperation b))"
proof -
  let ?a = "accountDataClientAdapter b"
  have p2: "pending (write_twice rt b ty c1 c2) ?a = map_set (pending rt ?a) ty c2"
    by (simp add: write_twice_def pending_builder_setAccountData map_set_twice)
  have p1: "pending (builder_setAccountData rt b ty c1) ?a = map_set (pending rt ?a) ty c1"
    by (simp add: pending_builder_setAccountData)
  have rd: "truthy c2 \<longrightarrow> getAccountData (write_twice rt b ty c1 c2) ?a ty = c2"
    by (simp add: getAccountData_eq p2 map_get_map_set)
  have keys: "map fst (map_set (pending rt ?a) ty c2) = map fst (map_set (pending rt ?a) ty c1)"
    by (simp add: map_fst_map_set)
  have ap: "(\<forall>r ty' content. snd (baseApis r ty' content) = None) \<longrightarrow>
      requests (op_apply baseApis b [] (write_twice rt b ty c1 c2) (buildOperation b) r0)
        = operation_entries (write_twice rt b ty c1 c2) (buildOperation b)"
    by (simp add: op_apply_undisturbed replay_fulfilled requests_def)
  show ?thesis
    using rd keys ap
    by (simp add: operation_entries_buildOperation p1 p2 filter_map_set map_fst_map_set)
qed

theorem rewrite_is_last_write_wins_witness:
  "truthy (JObj [(''n'', JNum 22)]) \<and>
   getAccountData (write_twice ex_three ex_builder ''m.two'' (JObj []) (JObj [(''n'', JNum 22)]))
     ex_adapter ''m.two'' = JObj [(''n'', JNum 22)] \<and>
   distinct (map fst (pending ex_three ex_adapter)) \<and>
   (\<forall>r ty content. snd (recording_client r ty content) = None) \<and>
   requests (op_apply recording_client ex_builder []
       (write_twice ex_three ex_builder ''m.two'' (JObj []) (JObj [(''n'', JNum 22)]))
       (buildOperation ex_builder) [])
     = [(''m.one'', JObj [(''n'', JNum 1)]), (''m.two'', JObj [(''n'', JNum 22)]),
        (''m.three'', JObj [(''n'', JNum 3)])]"
  using rewrite_is_last_write_wins [of "JObj [(''n'', JNum 22)]" ex_three ex_builder "''m.two''" "JObj []"
      recording_client "[]"]
  by (simp add: ex_defs2 write_twice_def getAccountData_def apply_loop.simps)

text \<open>
  Claim C5 as stated fails for the read: over the existing entry
  \<^verbatim>\<open>{"m.foo": {"a": 1}}\<close>, after \<^verbatim>\<open>setAccountData("m.foo", {"a": 2})\<close> and then
  \<^verbatim>\<open>setAccountData("m.foo", null)\<close>, the read of \<^verbatim>\<open>"m.foo"\<close> is not the second
  content \<^verbatim>\<open>null\<close>: it is the existing content.
\<close>

theorem rewrite_read_counterexample:
  "getAccountData (write_twice ex_rt ex_builder ''m.foo'' (JObj [(''a'', JNum 2)]) JNull)
     ex_adapter ''m.foo'' = JObj [(''a'', JNum 1)] \<and>
   getAccountData (write_twice ex_rt ex_builder ''m.foo'' (JObj [(''a'', JNum 2)]) JNull)
     ex_adapter ''m.foo'' \<noteq> JNull"
  by (simp add: ex_defs2 write_twice_def getAccountData_def)

section \<open>Notification of writes\<close>

text \<open>
  Claim C6. A write records the pending value at once, appends exactly one job carrying
  its type and content to the queue of deferred jobs, and calls no listener itself. A
  task that makes writes and registers listeners in any order ends with the queue empty,
  and by then each write of the task (after the jobs that were already queued) has been
  delivered, in the order of the writes, to every listener registered by the end of the
  task's synchronous code. So a listener registered after a write in the same
  synchronous code receives that write, once.
\<close>

theorem write_notifies_once_after_sync_code:
  "map_get (pending (setAccountData rt a ty c) a) ty = c \<and>
   microtasks (setAccountData rt a ty c) = microtasks rt @ [EmitAccountData ty c] \<and>
   delivered (setAccountData rt a ty c) = delivered rt \<and>
   microtasks (fst (run_task rt a acts)) = [] \<and>
   listeners (snd (run_task rt a acts)) = listeners a @ subscriptions_of acts \<and>
   delivered (fst (run_task rt a acts))
     = delivered rt @
       concat (map (notifications (listeners a @ subscriptions_of acts))
                 (microtasks rt @ writes_of acts)) \<and>
   delivered (fst (run_task (rt\<lparr>microtasks := []\<rparr>) (a\<lparr>listeners := []\<rparr>)
                     [Write ty c, Subscribe l]))
     = delivered rt @ [(l, MatrixEvent ty c)]"
proof -
  obtain rt' a' where f: "foldl sync_step (rt, a) acts = (rt', a')"
    by (cases "foldl sync_step (rt, a) acts")
  have m: "microtasks rt' = microtasks rt @ writes_of acts"
    using foldl_sync_step_microtasks [of rt a acts] by (simp add: f)
  have d: "delivered rt' = delivered rt"
    using foldl_sync_step_delivered [of rt a acts] by (simp add: f)
  have l: "listeners a' = listeners a @ subscriptions_of acts"
    using foldl_sync_step_listeners [of rt a acts] by (simp add: f)
  have t1: "microtasks (fst (run_task rt a acts)) = []"
    by (simp add: run_task_def f run_microtasks_def foldl_run_microtask_microtasks)
  have t2: "listeners (snd (run_task rt a acts)) = listeners a @ subscriptions_of acts"
    by (simp add: run_task_def f l)
  have t3: "delivered (fst (run_task rt a acts))
     = delivered rt @
       concat (map (notifications (listeners a @ subscriptions_of acts))
                 (microtasks rt @ writes_of acts))"
    by (simp add: run_task_def f run_microtasks_def foldl_run_microtask_delivered m d l)
  have t4: "delivered (fst (run_task (rt\<lparr>microtasks := []\<rparr>) (a\<lparr>listeners := []\<rparr>)
                     [Write ty c, Subscribe l]))
     = delivered rt @ [(l, MatrixEvent ty c)]"
    by (simp add: run_task_def run_microtasks_def setAccountData_def addListener_def emit_def)
  have s: "map_get (pending (setAccountData rt a ty c) a) ty = c \<and>
   microtasks (setAccountData rt a ty c) = microtasks rt @ [EmitAccountData ty c] \<and>
   delivered (setAccountData rt a ty c) = delivered rt"
    by (simp add: pending_setAccountData map_get_map_set) (simp add: setAccountData_def)
  from s t1 t2 t3 t4 show ?thesis by blast
qed

section \<open>The store of cross-signing keys\<close>

text \<open>
  Claim C7. A key stored through the cache callback is what both get callbacks resolve
  to for its type, whatever the expected public key; the keys of a
  \<^verbatim>\<open>saveCrossSigningKeys\<close> are what the cache get callback resolves to; and the
  expected public key has no influence on either get callback, which give the same
  answer.
\<close>

theorem cross_signing_shapes_share_store:
  "getCrossSigningKey (fst (storeCrossSigningKeyCache s ty k)) ty p = Resolved k \<and>
   getCrossSigningKeyCache (fst (storeCrossSigningKeyCache s ty k)) ty p = Resolved k \<and>
   (distinct (map fst keysByType) \<and> (ty, k) \<in> set keysByType \<longrightarrow>
      getCrossSigningKeyCache (saveCrossSigningKeys s keysByType) ty p = Resolved k) \<and>
   getCrossSigningKeyCache s ty p = getCrossSigningKey s ty p' \<and>
   getCrossSigningKey s ty p = getCrossSigningKey s ty p' \<and>
   getCrossSigningKeyCache s ty p = getCrossSigningKeyCache s ty p'"
  by (simp add: getCrossSigningKey_def getCrossSigningKeyCache_def storeCrossSigningKeyCache_def
      saveCrossSigningKeys_def map_get_map_set map_get_foldl_map_set_present)

theorem cross_signing_shapes_share_store_witness:
  "distinct (map fst [(''master'', JBytes [1]), (''self_signing'', JBytes [2])]) \<and>
   (''self_signing'', JBytes [2]) \<in> set [(''master'', JBytes [1]), (''self_signing'', JBytes [2])] \<and>
   getCrossSigningKeyCache
     (saveCrossSigningKeys new_CrossSigningCallbacks
        [(''master'', JBytes [1]), (''self_signing'', JBytes [2])])
     ''self_signing'' (JStr ''pub'') = Resolved (JBytes [2])"
  using cross_signing_shapes_share_store [of new_CrossSigningCallbacks "''self_signing''" "JBytes [2]" "JStr ''pub''"
      "[(''master'', JBytes [1]), (''self_signing'', JBytes [2])]"]
  by simp

text \<open>
  Claim C9. \<^verbatim>\<open>saveCrossSigningKeys\<close> is synchronous, one step from the store before
  to the store after, with no state in between for a reader to see. After it, both get
  callbacks resolve to the new key for every type among the saved ones, and to what they
  resolved to before for every other type.
\<close>

theorem saveCrossSigningKeys_frame:
  "(distinct (map fst keysByType) \<and> (ty, k) \<in> set keysByType \<longrightarrow>
      getCrossSigningKey (saveCrossSigningKeys s keysByType) ty p = Resolved k \<and>
      getCrossSigningKeyCache (saveCrossSigningKeys s keysByType) ty p = Resolved k) \<and>
   (ty \<notin> fst ` set keysByType \<longrightarrow>
      getCrossSigningKey (saveCrossSigningKeys s keysByType) ty p = getCrossSigningKey s ty p \<and>
      getCrossSigningKeyCache (saveCrossSigningKeys s keysByType) ty p
        = getCrossSigningKeyCache s ty p)"
  by (simp add: getCrossSigningKey_def getCrossSigningKeyCache_def
      saveCrossSigningKeys_def map_get_foldl_map_set_present map_get_foldl_map_set_absent)

theorem saveCrossSigningKeys_frame_witness:
  "distinct (map fst [(''master'', JBytes [11]), (''self_signing'', JBytes [12])]) \<and>
   (''master'', JBytes [11]) \<in> set [(''master'', JBytes [11]), (''self_signing'', JBytes [12])] \<and>
   getCrossSigningKey
     (saveCrossSigningKeys ex_keys [(''master'', JBytes [11]), (''self_signing'', JBytes [12])])
     ''master'' JUndefined = Resolved (JBytes [11]) \<and>
   ''user_signing'' \<notin> fst ` set [(''master'', JBytes [11]), (''self_signing'', JBytes [12])] \<and>
   getCrossSigningKey
     (saveCrossSigningKeys ex_keys [(''master'', JBytes [11]), (''self_signing'', JBytes [12])])
     ''user_signing'' JUndefined = Resolved (JBytes [3])"
  using
    saveCrossSigningKeys_frame [of "[(''master'', JBytes [11]), (''self_signing'', JBytes [12])]"
      "''master''" "JBytes [11]" ex_keys JUndefined]
    saveCrossSigningKeys_frame [of "[(''master'', JBytes [11]), (''self_signing'', JBytes [12])]"
      "''user_signing''" "JBytes [3]" ex_keys JUndefined]
  by (simp add: ex_keys_def getCrossSigningKey_def storeCrossSigningKeyCache_def
      new_CrossSigningCallbacks_def)

section \<open>The store of secret-storage keys\<close>

text \<open>
  Claim C8, as the code has it. \<^verbatim>\<open>getSecretStorageKey\<close> returns the first key id of
  the descriptor, in the descriptor's order, for which the store holds a truthy key,
  together with that key, and \<^verbatim>\<open>undefined\<close> when there is none; the name of the
  secret has no influence; the function has no path that throws. In a store whose keys
  are all truthy, as every byte array is, that is the first key id of the descriptor the
  store has a key for.
\<close>

theorem getSecretStorageKey_first_held_candidate:
  "getSecretStorageKey s keys name =
     (case find (\<lambda>keyId. truthy (map_get (ssss_privateKeys s) keyId)) (map fst keys) of
        None \<Rightarrow> None
      | Some keyId \<Rightarrow> Some (keyId, map_get (ssss_privateKeys s) keyId)) \<and>
   getSecretStorageKey s keys name = getSecretStorageKey s keys name' \<and>
   ((\<forall>v \<in> snd ` set (ssss_privateKeys s). truthy v) \<longrightarrow>
      getSecretStorageKey s keys name =
        (case find (\<lambda>keyId. keyId \<in> fst ` set (ssss_privateKeys s)) (map fst keys) of
           None \<Rightarrow> None
         | Some keyId \<Rightarrow> Some (keyId, map_get (ssss_privateKeys s) keyId)))"
proof -
  have exact: "getSecretStorageKey s keys name =
     (case find (\<lambda>keyId. truthy (map_get (ssss_privateKeys s) keyId)) (map fst keys) of
        None \<Rightarrow> None
      | Some keyId \<Rightarrow> Some (keyId, map_get (ssss_privateKeys s) keyId))"
    unfolding getSecretStorageKey_def by (rule findSecretStorageKey_truthy)
  have name: "getSecretStorageKey s keys name = getSecretStorageKey s keys name'"
    by (simp add: getSecretStorageKey_def)
  have held: "(\<forall>v \<in> snd ` set (ssss_privateKeys s). truthy v) \<longrightarrow>
      getSecretStorageKey s keys name =
        (case find (\<lambda>keyId. keyId \<in> fst ` set (ssss_privateKeys s)) (map fst keys) of
           None \<Rightarrow> None
         | Some keyId \<Rightarrow> Some (keyId, map_get (ssss_privateKeys s) keyId))"
    unfolding getSecretStorageKey_def using findSecretStorageKey_find by blast
  from exact name held show ?thesis by blast
qed

theorem getSecretStorageKey_first_held_candidate_witness:
  "list_all truthy (map snd (ssss_privateKeys ex_ssss)) \<and>
   getSecretStorageKey ex_ssss [(''keyId1'', JObj []), (''keyId2'', JObj [])] ''m.cross_signing.master''
     = Some (''keyId2'', JBytes [7, 7, 7]) \<and>
   getSecretStorageKey ex_ssss [(''keyId1'', JObj []), (''keyId3'', JObj [])] ''m.cross_signing.master''
     = None"
  using
    getSecretStorageKey_first_held_candidate
      [of ex_ssss "[(''keyId1'', JObj []), (''keyId2'', JObj [])]" "''m.cross_signing.master''"]
    getSecretStorageKey_first_held_candidate
      [of ex_ssss "[(''keyId1'', JObj []), (''keyId3'', JObj [])]" "''m.cross_signing.master''"]
  by (simp add: ex_ssss_def addPrivateKey_def new_SSSSCryptoCallbacks_def)

text \<open>
  Claim C8 as stated fails: the store holds \<^verbatim>\<open>null\<close> for \<^verbatim>\<open>keyId1\<close> and a byte
  array for \<^verbatim>\<open>keyId2\<close>; for a descriptor that lists \<^verbatim>\<open>keyId1\<close> then
  \<^verbatim>\<open>keyId2\<close> the result is the pair of \<^verbatim>\<open>keyId2\<close>, not that of \<^verbatim>\<open>keyId1\<close>,
  the first candidate the store holds; and for a descriptor that lists \<^verbatim>\<open>keyId1\<close>
  only the result is \<^verbatim>\<open>undefined\<close> although the candidate is held.
\<close>

theorem getSecretStorageKey_falsy_key_counterexample:
  "''keyId1'' \<in> fst ` set (ssss_privateKeys ex_ssss_falsy) \<and>
   map_get (ssss_privateKeys ex_ssss_falsy) ''keyId1'' = JNull \<and>
   getSecretStorageKey ex_ssss_falsy [(''keyId1'', JObj []), (''keyId2'', JObj [])] ''m.secret''
     = Some (''keyId2'', JBytes [7, 7, 7]) \<and>
   getSecretStorageKey ex_ssss_falsy [(''keyId1'', JObj []), (''keyId2'', JObj [])] ''m.secret''
     \<noteq> Some (''keyId1'', JNull) \<and>
   getSecretStorageKey ex_ssss_falsy [(''keyId1'', JObj [])] ''m.secret'' = None"
  by (simp add: ex_ssss_falsy_def getSecretStorageKey_def addPrivateKey_def
      new_SSSSCryptoCallbacks_def)

end
